theory Spec2Isabelle
  imports Complex_Main "HOL-Library.Log_Nat" "HOL-Library.Sublist"
begin

section \<open>Configuration constants\<close>

text \<open>
  \<^verbatim>\<open>const TARGET_SAMPLES = 52;\<close> in main.js, part_000 and part_001;
  \<^verbatim>\<open>const MAX_SAMPLES = SAMPLE_RATE * BUFFER_LENGTH_SEC;\<close> (50 * 2) in part_002.
\<close>

definition TARGET_SAMPLES :: nat where
  "TARGET_SAMPLES = 52"

definition SAMPLE_RATE :: nat where
  "SAMPLE_RATE = 50"

definition BUFFER_LENGTH_SEC :: nat where
  "BUFFER_LENGTH_SEC = 2"

definition MAX_SAMPLES :: nat where
  "MAX_SAMPLES = SAMPLE_RATE * BUFFER_LENGTH_SEC"

section \<open>JavaScript numbers on the index path\<close>

text \<open>
  The downsampling loop computes \<^verbatim>\<open>step = accelData.length / TARGET_SAMPLES\<close> and
  \<^verbatim>\<open>Math.floor(i * step)\<close> on IEEE binary64 numbers: both the quotient and the
  product are rounded to 53 significant bits, to nearest, ties to even.

  The branch runs only when the length exceeds 52, so the step is at least 1 and every
  product is 0 or at least 1. A binary64 value \<open>v \<ge> 1\<close> is an integer multiple of
  \<open>2\<^sup>-\<^sup>5\<^sup>2\<close>; such a value is represented here by the natural number
  \<open>v * 2\<^sup>5\<^sup>2\<close>. The exponent is left unbounded: an array length is below
  \<open>2\<^sup>3\<^sup>2\<close>, far from overflow.
\<close>

type_synonym double = nat

definition rne_div :: "nat \<Rightarrow> nat \<Rightarrow> nat" where
  \<comment> \<open>the quotient \<open>a / b\<close> rounded to the nearest integer, ties to the even one\<close>
  "rne_div a b =
     (let q = a div b; r = a mod b
      in if 2 * r < b then q
         else if b < 2 * r then q + 1
         else if even q then q else q + 1)"

definition round53 :: "nat \<Rightarrow> nat \<Rightarrow> double" where
  \<comment> \<open>\<open>a / b\<close> (in units of \<open>2\<^sup>-\<^sup>5\<^sup>2\<close>) rounded to 53 significant bits:
      \<open>e\<close> is the number of low bits that do not fit\<close>
  "round53 a b =
     (let e = floorlog 2 (a div b) - 53
      in rne_div a (b * 2 ^ e) * 2 ^ e)"

definition js_div :: "nat \<Rightarrow> nat \<Rightarrow> double" where
  \<comment> \<open>\<^verbatim>\<open>l / n\<close> for two array-length integers with \<open>l \<ge> n > 0\<close>\<close>
  "js_div l n = round53 (l * 2 ^ 52) n"

definition js_mul :: "nat \<Rightarrow> double \<Rightarrow> double" where
  \<comment> \<open>\<^verbatim>\<open>i * d\<close> for a loop counter \<open>i\<close> and a double \<open>d\<close>\<close>
  "js_mul i d = round53 (i * d) 1"

definition Math_floor :: "double \<Rightarrow> nat" where
  "Math_floor d = d div 2 ^ 52"

definition dval :: "double \<Rightarrow> real" where
  \<comment> \<open>the real number a representation stands for\<close>
  "dval d = real d / 2 ^ 52"

definition pick_index :: "nat \<Rightarrow> nat \<Rightarrow> nat" where
  \<comment> \<open>\<^verbatim>\<open>Math.floor(i * step)\<close> with \<^verbatim>\<open>step = accelData.length / TARGET_SAMPLES\<close>\<close>
  "pick_index l i = Math_floor (js_mul i (js_div l TARGET_SAMPLES))"

section \<open>Window normalisation\<close>

text \<open>
  \<^verbatim>\<open>while (accelData.length < TARGET_SAMPLES) { accelData.push({ x: 0, y: 0, z: 0 }); }\<close>
  The pushed object is the parameter \<open>zero\<close>.
\<close>

function pad_loop :: "'a \<Rightarrow> 'a list \<Rightarrow> 'a list" where
  "pad_loop zero accelData =
     (if length accelData < TARGET_SAMPLES
      then pad_loop zero (accelData @ [zero])
      else accelData)"
  by pat_completeness auto
termination
  by (relation "measure (\<lambda>(zero, accelData). TARGET_SAMPLES - length accelData)") auto

declare pad_loop.simps [simp del]

definition slice_neg :: "nat \<Rightarrow> 'a list \<Rightarrow> 'a list" where
  \<comment> \<open>\<^verbatim>\<open>arr.slice(-n)\<close>: the start index is \<open>max (length - n) 0\<close>\<close>
  "slice_neg n arr = drop (length arr - n) arr"

definition js_index :: "'a \<Rightarrow> 'a list \<Rightarrow> nat \<Rightarrow> 'a" where
  \<comment> \<open>\<^verbatim>\<open>arr[k]\<close>: reading past the end yields \<^verbatim>\<open>undefined\<close>\<close>
  "js_index undef arr k = (if k < length arr then arr ! k else undef)"

text \<open>
  The \<^verbatim>\<open>for (let i = 0; i < TARGET_SAMPLES; i++)\<close> loop of the second main.js:
  \<^verbatim>\<open>const index = Math.floor(i * step); downsampled.push(accelData[index]);\<close>
\<close>

function downsample_loop :: "'a \<Rightarrow> 'a list \<Rightarrow> double \<Rightarrow> nat \<Rightarrow> 'a list \<Rightarrow> 'a list" where
  "downsample_loop undef accelData step i downsampled =
     (if i < TARGET_SAMPLES
      then let index = Math_floor (js_mul i step)
           in downsample_loop undef accelData step (i + 1)
                (downsampled @ [js_index undef accelData index])
      else downsampled)"
  by pat_completeness auto
termination
  by (relation "measure (\<lambda>(undef, accelData, step, i, downsampled). TARGET_SAMPLES - i)")
     auto

declare downsample_loop.simps [simp del]

definition downsample :: "'a \<Rightarrow> 'a list \<Rightarrow> 'a list" where
  "downsample undef accelData =
     (let step = js_div (length accelData) TARGET_SAMPLES
      in downsample_loop undef accelData step 0 [])"

definition normalize_tail :: "'a \<Rightarrow> 'a list \<Rightarrow> 'a list" where
  \<comment> \<open>first main.js (lines 106-116), part_000 (87-101) and part_001 (76-85): pad or keep
      the last 52\<close>
  "normalize_tail zero accelData =
     (if length accelData < TARGET_SAMPLES then pad_loop zero accelData
      else if length accelData > TARGET_SAMPLES then slice_neg TARGET_SAMPLES accelData
      else accelData)"

definition normalize_stride :: "'a \<Rightarrow> 'a \<Rightarrow> 'a list \<Rightarrow> 'a list" where
  \<comment> \<open>second main.js (lines 340-363): pad or pick 52 entries at a uniform stride\<close>
  "normalize_stride undef zero accelData =
     (if length accelData < TARGET_SAMPLES then pad_loop zero accelData
      else if length accelData > TARGET_SAMPLES then downsample undef accelData
      else accelData)"

section \<open>Readings, events and the page state\<close>

text \<open>
  An axis value as the platform delivers it: a number, \<^verbatim>\<open>null\<close> or
  \<^verbatim>\<open>undefined\<close>. \<open>JNaN\<close> is the number that is not a number.
\<close>

datatype jsval = JUndefined | JNull | JNaN | JNum real

definition or_zero :: "jsval \<Rightarrow> jsval" where
  \<comment> \<open>\<^verbatim>\<open>v || 0\<close>: \<^verbatim>\<open>undefined\<close>, \<^verbatim>\<open>null\<close>, \<^verbatim>\<open>NaN\<close> and \<^verbatim>\<open>0\<close> are falsy\<close>
  "or_zero v = (case v of JNum r \<Rightarrow> (if r = 0 then JNum 0 else JNum r) | _ \<Rightarrow> JNum 0)"

text \<open>The object \<^verbatim>\<open>{ x, y, z }\<close> stored in \<^verbatim>\<open>accelData\<close>.\<close>

datatype reading = Reading jsval jsval jsval

definition zero_reading :: reading where
  "zero_reading = Reading (JNum 0) (JNum 0) (JNum 0)"

text \<open>
  A \<^verbatim>\<open>devicemotion\<close> event: \<^verbatim>\<open>event.accelerationIncludingGravity\<close> is
  \<^verbatim>\<open>null\<close> (\<open>None\<close>) or an object with the three axis values.
\<close>

datatype motion_event = MotionEvent "(jsval \<times> jsval \<times> jsval) option"

fun accelerationIncludingGravity :: "motion_event \<Rightarrow> (jsval \<times> jsval \<times> jsval) option" where
  "accelerationIncludingGravity (MotionEvent a) = a"

datatype js_error = TypeError | PredictError string

text \<open>What \<^verbatim>\<open>model.predict(inputTensor)\<close> followed by \<^verbatim>\<open>await outputTensor.data()\<close> gives.\<close>

datatype predict_outcome = Predicted "real list" | PredictThrows js_error

text \<open>
  The text \<^verbatim>\<open>v.toFixed(3)\<close> gives for a number: the sign and the number of
  thousandths nearest to the magnitude (the larger one on a tie), \<^verbatim>\<open>NaN\<close>, or, from
  \<open>10\<^sup>2\<^sup>1\<close> on, the exponent notation of the number itself.
\<close>

datatype fixed3 = FixedText bool nat | NaNText | ExponentText real

text \<open>The text written to the \<^verbatim>\<open>status\<close> element.\<close>

datatype status_text =
    NoStatus
  | LoopStopped
  | Collecting nat
  | Collected nat
  | ModelNotLoaded
  | InferenceComplete
  | InferenceResult "real list"
  | ErrorStatus js_error
  | LatestReading fixed3 fixed3 fixed3

datatype handler = HandleMotionEvent

type_synonym listener = "string \<times> handler \<times> bool"

definition motionListener :: listener where
  \<comment> \<open>the triple of \<^verbatim>\<open>('devicemotion', handleMotionEvent, true)\<close>\<close>
  "motionListener = (''devicemotion'', HandleMotionEvent, True)"

definition addEventListener :: "listener \<Rightarrow> listener list \<Rightarrow> listener list" where
  \<comment> \<open>the DOM ignores a registration equal to one already in the list\<close>
  "addEventListener l ls = (if l \<in> set ls then ls else ls @ [l])"

definition removeEventListener :: "listener \<Rightarrow> listener list \<Rightarrow> listener list" where
  "removeEventListener l ls = remove1 l ls"

text \<open>
  The globals of the page and what the browser holds for it: the listeners registered on
  \<^verbatim>\<open>window\<close>, the number of pending \<^verbatim>\<open>setTimeout\<close> callbacks (each calls
  \<^verbatim>\<open>stopCollectingData\<close>), the number of inference calls suspended at an
  \<^verbatim>\<open>await\<close>, and the errors that escaped every handler (uncaught exceptions and
  unhandled promise rejections). \<open>model_loaded\<close> stands for \<^verbatim>\<open>model !== null\<close>.
\<close>

record cycle =
  model_loaded :: bool
  accelData :: "reading list"
  continueLoop :: bool
  listeners :: "listener list"
  timers :: nat
  awaiting :: nat
  status :: status_text
  logResults :: "real list list"
  uncaught :: "js_error list"

definition page_load :: cycle where
  \<comment> \<open>\<^verbatim>\<open>let model = null; let accelData = []; let continueLoop = true;\<close>\<close>
  "page_load = \<lparr>model_loaded = False, accelData = [], continueLoop = True, listeners = [],
     timers = 0, awaiting = 0, status = NoStatus, logResults = [], uncaught = []\<rparr>"

section \<open>main.js\<close>

definition loadModel :: "bool \<Rightarrow> cycle \<Rightarrow> cycle" where
  \<comment> \<open>\<open>ok\<close>: whether \<^verbatim>\<open>tf.loadLayersModel\<close> resolved; the catch branch sets
      \<^verbatim>\<open>model = null\<close>\<close>
  "loadModel ok s = s\<lparr>model_loaded := ok\<rparr>"

definition handleMotionEvent :: "motion_event \<Rightarrow> cycle \<Rightarrow> cycle" where
  \<comment> \<open>\<^verbatim>\<open>const { x, y, z } = event.accelerationIncludingGravity || {};\<close>\<close>
  "handleMotionEvent event s =
     (let (x, y, z) = (case accelerationIncludingGravity event of
                         None \<Rightarrow> (JUndefined, JUndefined, JUndefined)
                       | Some a \<Rightarrow> a);
          s1 = s\<lparr>accelData := accelData s @ [Reading (or_zero x) (or_zero y) (or_zero z)]\<rparr>
      in s1\<lparr>status := Collecting (length (accelData s1))\<rparr>)"

definition startCollectingData :: "cycle \<Rightarrow> cycle" where
  "startCollectingData s =
     (if \<not> continueLoop s then s
      else s\<lparr>accelData := [],
             listeners := addEventListener motionListener (listeners s),
             timers := timers s + 1\<rparr>)"

definition startContinuousLoop :: "cycle \<Rightarrow> cycle" where
  "startContinuousLoop s = startCollectingData (s\<lparr>continueLoop := True\<rparr>)"

definition stopContinuousLoop :: "cycle \<Rightarrow> cycle" where
  "stopContinuousLoop s =
     s\<lparr>continueLoop := False,
       listeners := removeEventListener motionListener (listeners s),
       status := LoopStopped\<rparr>"

definition next_cycle :: "cycle \<Rightarrow> cycle" where
  \<comment> \<open>the tail of \<^verbatim>\<open>stopCollectingData\<close>: \<^verbatim>\<open>if (continueLoop) startCollectingData();\<close>\<close>
  "next_cycle s = (if continueLoop s then startCollectingData s else s)"

text \<open>
  \<^verbatim>\<open>stopCollectingData\<close> up to its first real suspension. With no model,
  \<^verbatim>\<open>runInference\<close> returns at once and the \<^verbatim>\<open>await\<close> resumes in a microtask,
  before any other event or timer: the tail runs in the same step. With a model the
  call is suspended until the prediction settles.
\<close>

definition stopCollectingData :: "cycle \<Rightarrow> cycle" where
  "stopCollectingData s =
     (let s1 = s\<lparr>listeners := removeEventListener motionListener (listeners s)\<rparr>;
          s2 = s1\<lparr>accelData := normalize_tail zero_reading (accelData s1)\<rparr>;
          s3 = s2\<lparr>status := Collected (length (accelData s2))\<rparr>
      in if \<not> model_loaded s3 then next_cycle (s3\<lparr>status := ModelNotLoaded\<rparr>)
         else s3\<lparr>awaiting := awaiting s3 + 1\<rparr>)"

definition runInference_settled :: "predict_outcome \<Rightarrow> cycle \<Rightarrow> cycle" where
  \<comment> \<open>the \<^verbatim>\<open>try { ... } catch (err) { ... }\<close> of \<^verbatim>\<open>runInference\<close>\<close>
  "runInference_settled outcome s =
     (case outcome of
        Predicted predictions \<Rightarrow>
          s\<lparr>status := InferenceComplete, logResults := predictions # logResults s\<rparr>
      | PredictThrows err \<Rightarrow> s\<lparr>status := ErrorStatus err\<rparr>)"

definition stopCollectingData_resume :: "predict_outcome \<Rightarrow> cycle \<Rightarrow> cycle" where
  \<comment> \<open>\<^verbatim>\<open>stopCollectingData\<close> after \<^verbatim>\<open>await runInference()\<close>\<close>
  "stopCollectingData_resume outcome s =
     next_cycle (runInference_settled outcome (s\<lparr>awaiting := awaiting s - 1\<rparr>))"

text \<open>What can happen to the page, one task of the event loop at a time.\<close>

datatype event =
    LoadModel bool
  | Start
  | Stop
  | Motion motion_event
  | TimerFire
  | InferenceSettled predict_outcome

fun invoke :: "motion_event \<Rightarrow> listener \<Rightarrow> cycle \<Rightarrow> cycle" where
  "invoke ev (ty, HandleMotionEvent, capture) s = handleMotionEvent ev s"

fun react :: "event \<Rightarrow> cycle \<Rightarrow> cycle" where
  "react (LoadModel ok) s = loadModel ok s"
| "react Start s = startContinuousLoop s"
| "react Stop s = stopContinuousLoop s"
| "react (Motion ev) s =
     fold (invoke ev) (filter (\<lambda>l. fst l = ''devicemotion'') (listeners s)) s"
| "react TimerFire s =
     (if timers s = 0 then s else stopCollectingData (s\<lparr>timers := timers s - 1\<rparr>))"
| "react (InferenceSettled outcome) s =
     (if awaiting s = 0 then s else stopCollectingData_resume outcome s)"

definition run :: "event list \<Rightarrow> cycle \<Rightarrow> cycle" where
  "run evs s = fold react evs s"

section \<open>part_000: the variant without fallbacks\<close>

definition handleMotionEvent_part000 :: "motion_event \<Rightarrow> cycle \<Rightarrow> js_error + cycle" where
  \<comment> \<open>\<^verbatim>\<open>const { x, y, z } = event.accelerationIncludingGravity;\<close> throws on
      \<^verbatim>\<open>null\<close>; the values are pushed as delivered\<close>
  "handleMotionEvent_part000 event s =
     (case accelerationIncludingGravity event of
        None \<Rightarrow> Inl TypeError
      | Some (x, y, z) \<Rightarrow>
          (let s1 = s\<lparr>accelData := accelData s @ [Reading x y z]\<rparr>
           in Inr (s1\<lparr>status := Collecting (length (accelData s1))\<rparr>)))"

definition startCollectingData_part000 :: "cycle \<Rightarrow> cycle" where
  "startCollectingData_part000 s =
     s\<lparr>accelData := [],
       listeners := addEventListener motionListener (listeners s),
       timers := timers s + 1\<rparr>"

definition startLoop_part000 :: "cycle \<Rightarrow> cycle" where
  "startLoop_part000 s = (if \<not> continueLoop s then s else startCollectingData_part000 s)"

definition then_callback_part000 :: "cycle \<Rightarrow> cycle" where
  \<comment> \<open>\<^verbatim>\<open>.then(() => { if (continueLoop) { startCollectingData(); } })\<close>\<close>
  "then_callback_part000 s = (if continueLoop s then startCollectingData_part000 s else s)"

definition stopCollectingData_part000 :: "cycle \<Rightarrow> cycle" where
  "stopCollectingData_part000 s =
     (let s1 = s\<lparr>listeners := removeEventListener motionListener (listeners s)\<rparr>;
          s2 = s1\<lparr>accelData := normalize_tail zero_reading (accelData s1)\<rparr>;
          s3 = s2\<lparr>status := Collected (length (accelData s2))\<rparr>
      in if \<not> model_loaded s3 then then_callback_part000 (s3\<lparr>status := ModelNotLoaded\<rparr>)
         else s3\<lparr>awaiting := awaiting s3 + 1\<rparr>)"

definition runInference_settled_part000 :: "predict_outcome \<Rightarrow> cycle \<Rightarrow> cycle" where
  \<comment> \<open>no \<^verbatim>\<open>try\<close>: a throwing prediction rejects the promise of
      \<^verbatim>\<open>runInference\<close>, the \<^verbatim>\<open>then\<close> callback is skipped and the rejection is
      unhandled\<close>
  "runInference_settled_part000 outcome s =
     (let s1 = s\<lparr>awaiting := awaiting s - 1\<rparr>
      in case outcome of
           Predicted predictions \<Rightarrow>
             then_callback_part000 (s1\<lparr>status := InferenceResult predictions\<rparr>)
         | PredictThrows err \<Rightarrow> s1\<lparr>uncaught := err # uncaught s1\<rparr>)"

definition stopLoop_part000 :: "cycle \<Rightarrow> cycle" where
  "stopLoop_part000 s =
     s\<lparr>continueLoop := False,
       listeners := removeEventListener motionListener (listeners s),
       status := LoopStopped\<rparr>"

definition loadModel_part000 :: "bool \<Rightarrow> cycle \<Rightarrow> cycle" where
  \<comment> \<open>the catch branch only logs: \<^verbatim>\<open>model\<close> keeps its value\<close>
  "loadModel_part000 ok s = (if ok then s\<lparr>model_loaded := True\<rparr> else s)"

fun invoke_part000 :: "motion_event \<Rightarrow> listener \<Rightarrow> cycle \<Rightarrow> cycle" where
  \<comment> \<open>an exception thrown by a listener is reported and the dispatch goes on\<close>
  "invoke_part000 ev (ty, HandleMotionEvent, capture) s =
     (case handleMotionEvent_part000 ev s of
        Inl err \<Rightarrow> s\<lparr>uncaught := err # uncaught s\<rparr>
      | Inr s' \<Rightarrow> s')"

fun react_part000 :: "event \<Rightarrow> cycle \<Rightarrow> cycle" where
  "react_part000 (LoadModel ok) s = loadModel_part000 ok s"
| "react_part000 Start s = startLoop_part000 s"
| "react_part000 Stop s = stopLoop_part000 s"
| "react_part000 (Motion ev) s =
     fold (invoke_part000 ev) (filter (\<lambda>l. fst l = ''devicemotion'') (listeners s)) s"
| "react_part000 TimerFire s =
     (if timers s = 0 then s else stopCollectingData_part000 (s\<lparr>timers := timers s - 1\<rparr>))"
| "react_part000 (InferenceSettled outcome) s =
     (if awaiting s = 0 then s else runInference_settled_part000 outcome s)"

definition run_part000 :: "event list \<Rightarrow> cycle \<Rightarrow> cycle" where
  "run_part000 evs s = fold react_part000 evs s"

section \<open>part_002: the sliding buffer\<close>

text \<open>The object \<^verbatim>\<open>{ x, y, z, t: performance.now() }\<close>.\<close>

datatype timed_reading = TimedReading jsval jsval jsval real

definition toFixed :: "jsval \<Rightarrow> js_error + fixed3" where
  \<comment> \<open>\<^verbatim>\<open>v.toFixed(3)\<close> is a method of numbers only: reading it off
      \<^verbatim>\<open>null\<close> or \<^verbatim>\<open>undefined\<close> throws\<close>
  "toFixed v =
     (case v of
        JUndefined \<Rightarrow> Inl TypeError
      | JNull \<Rightarrow> Inl TypeError
      | JNaN \<Rightarrow> Inr NaNText
      | JNum r \<Rightarrow>
          Inr (if 10 ^ 21 \<le> \<bar>r\<bar> then ExponentText r
               else FixedText (r < 0) (nat \<lfloor>\<bar>r\<bar> * 1000 + 1 / 2\<rfloor>)))"

definition handleMotionEvent_part002 ::
  "real \<Rightarrow> motion_event \<Rightarrow> timed_reading list \<Rightarrow> timed_reading list \<times> (js_error + status_text)" where
  \<comment> \<open>returns the buffer after the call, and the status written or the exception that
      escaped; \<open>now\<close> is \<^verbatim>\<open>performance.now()\<close>\<close>
  "handleMotionEvent_part002 now event accelData0 =
     (case accelerationIncludingGravity event of
        None \<Rightarrow> (accelData0, Inl TypeError)
      | Some (x, y, z) \<Rightarrow>
          (let pushed = accelData0 @ [TimedReading x y z now];
               kept = (if length pushed > MAX_SAMPLES then tl pushed else pushed)
           in (kept,
               case toFixed x of Inl e \<Rightarrow> Inl e | Inr fx \<Rightarrow>
               (case toFixed y of Inl e \<Rightarrow> Inl e | Inr fy \<Rightarrow>
               (case toFixed z of Inl e \<Rightarrow> Inl e | Inr fz \<Rightarrow>
                  Inr (LatestReading fx fy fz))))))"

section \<open>Test inputs\<close>

text \<open>The readings \<open>(i, i, i)\<close> for \<open>i = 0, \<dots>, n - 1\<close>, as array entries.\<close>

fun sequential_reading :: "nat \<Rightarrow> reading option" where
  "sequential_reading i = Some (Reading (JNum (real i)) (JNum (real i)) (JNum (real i)))"

definition sequential_readings :: "nat \<Rightarrow> reading option list" where
  "sequential_readings n = map sequential_reading [0..<n]"

text \<open>Timed readings whose time stamp tells them apart.\<close>

fun timed_sample :: "nat \<Rightarrow> timed_reading" where
  "timed_sample i = TimedReading (JNum 0) (JNum 0) (JNum 0) (real i)"

definition timed_samples :: "nat \<Rightarrow> timed_reading list" where
  "timed_samples n = map timed_sample [0..<n]"

definition one_two_three :: motion_event where
  "one_two_three = MotionEvent (Some (JNum 1, JNum 2, JNum 3))"

definition x_missing :: motion_event where
  "x_missing = MotionEvent (Some (JNull, JNum 2, JNum 3))"

section \<open>Invariant of the listener list\<close>

definition at_most_once :: "cycle \<Rightarrow> bool" where
  "at_most_once s \<longleftrightarrow> listeners s = [] \<or> listeners s = [motionListener]"

section \<open>Rounding to binary64\<close>

text \<open>
  Rounding a quotient to the nearest integer is off by at most one half; rounding to 53
  significant bits is therefore off by at most the fraction \<open>2\<^sup>-\<^sup>5\<^sup>3\<close> of the
  exact value, for every value that is at least 1.
\<close>

lemma rne_div_error:
  assumes "0 < b"
  shows "\<bar>real (rne_div a b) - real a / real b\<bar> \<le> 1 / 2"
proof -
  define q where "q = a div b"
  define r where "r = a mod b"
  have "a = q * b + r"
    by (simp add: q_def r_def)
  then have "real a = real q * real b + real r"
    by (metis of_nat_add of_nat_mult)
  with assms have quot: "real a / real b = real q + real r / real b"
    by (simp add: field_simps)
  have rb: "r < b"
    using assms by (simp add: r_def)
  have frac: "0 \<le> real r / real b" "real r / real b < 1"
    using assms rb by simp_all
  consider (lo) "2 * r < b" | (hi) "b < 2 * r" | (tie) "2 * r = b"
    by linarith
  then show ?thesis
  proof cases
    case lo
    then have "rne_div a b = q"
      by (simp add: rne_div_def q_def r_def Let_def)
    then have "real (rne_div a b) - real a / real b = - (real r / real b)"
      by (simp add: quot)
    moreover from lo assms have "real r / real b \<le> 1 / 2"
      by (simp add: field_simps)
    ultimately show ?thesis
      using frac(1) by simp
  next
    case hi
    then have "rne_div a b = q + 1"
      by (simp add: rne_div_def q_def r_def Let_def)
    then have "real (rne_div a b) - real a / real b = 1 - real r / real b"
      by (simp add: quot)
    moreover from hi assms have "1 / 2 \<le> real r / real b"
      by (simp add: field_simps)
    ultimately show ?thesis
      using frac(2) by simp
  next
    case tie
    then have "rne_div a b = q \<or> rne_div a b = q + 1"
      by (simp add: rne_div_def q_def r_def Let_def)
    moreover from tie assms have "real r / real b = 1 / 2"
      by (simp add: field_simps)
    ultimately show ?thesis
      using quot by auto
  qed
qed

lemma round53_binade:
  assumes "0 < b" and "2 ^ 52 * b \<le> a"
  shows "2 ^ (52 + (floorlog 2 (a div b) - 53)) * b \<le> a"
proof (cases "floorlog 2 (a div b) \<le> 53")
  case True
  with assms show ?thesis by simp
next
  case False
  define q where "q = a div b"
  from False have big: "53 < floorlog 2 q"
    by (simp add: q_def)
  then have "0 < q"
    by (cases "q = 0") (simp_all add: floorlog_def)
  then have "2 ^ (floorlog 2 q - 1) \<le> q"
    using floorlog_bounds [where b = 2 and x = q] by simp
  moreover from big have "52 + (floorlog 2 q - 53) = floorlog 2 q - 1"
    by simp
  ultimately have "2 ^ (52 + (floorlog 2 q - 53)) \<le> q"
    by simp
  then have "2 ^ (52 + (floorlog 2 q - 53)) * b \<le> q * b"
    by simp
  also have "q * b \<le> a"
    by (simp add: q_def)
  finally show ?thesis
    by (simp add: q_def)
qed

lemma round53_error:
  assumes "0 < b" and "2 ^ 52 * b \<le> a"
  shows "\<bar>real (round53 a b) - real a / real b\<bar> * 2 ^ 53 \<le> real a / real b"
proof -
  define e where "e = floorlog 2 (a div b) - 53"
  have r: "round53 a b = rne_div a (b * 2 ^ e) * 2 ^ e"
    by (simp add: round53_def e_def Let_def)
  have "\<bar>real (rne_div a (b * 2 ^ e)) - real a / real (b * 2 ^ e)\<bar> \<le> 1 / 2"
    using assms(1) by (intro rne_div_error) simp
  then have scaled: "\<bar>real (rne_div a (b * 2 ^ e)) - real a / real (b * 2 ^ e)\<bar> * 2 ^ e \<le> 1 / 2 * 2 ^ e"
    by (intro mult_right_mono) simp_all
  have same: "\<bar>real (rne_div a (b * 2 ^ e)) - real a / real (b * 2 ^ e)\<bar> * 2 ^ e
      = \<bar>real (round53 a b) - real a / real b\<bar>"
  proof -
    have "\<bar>real (rne_div a (b * 2 ^ e)) - real a / real (b * 2 ^ e)\<bar> * 2 ^ e
      = \<bar>(real (rne_div a (b * 2 ^ e)) - real a / real (b * 2 ^ e)) * 2 ^ e\<bar>"
      by (simp add: abs_mult)
    also have "(real (rne_div a (b * 2 ^ e)) - real a / real (b * 2 ^ e)) * 2 ^ e
      = real (round53 a b) - real a / real b"
      using assms(1) by (simp add: r field_simps)
    finally show ?thesis .
  qed
  have err: "\<bar>real (round53 a b) - real a / real b\<bar> \<le> 2 ^ e / 2"
    using scaled unfolding same by simp
  have "2 ^ (52 + e) * b \<le> a"
    using round53_binade [OF assms] by (simp add: e_def)
  then have "real (2 ^ (52 + e) * b) \<le> real a"
    by (rule of_nat_mono)
  then have "2 ^ (52 + e) \<le> real a / real b"
    using assms(1) by (simp add: field_simps)
  then have "2 ^ e * 2 ^ 52 \<le> real a / real b"
    by (simp add: power_add mult.commute)
  moreover from err have "\<bar>real (round53 a b) - real a / real b\<bar> * 2 ^ 53 \<le> 2 ^ e / 2 * 2 ^ 53"
    by (intro mult_right_mono) simp_all
  ultimately show ?thesis
    by simp
qed

lemma rel_error_bounds:
  fixes x t c :: real
  assumes "\<bar>x - t\<bar> * c \<le> t" and "0 \<le> c"
  shows "t * (c - 1) \<le> x * c" and "x * c \<le> t * (c + 1)"
proof -
  have "(x - t) * c \<le> \<bar>x - t\<bar> * c" and "(t - x) * c \<le> \<bar>x - t\<bar> * c"
    using assms(2) by (intro mult_right_mono; simp)+
  with assms(1) have "(x - t) * c \<le> t" and "(t - x) * c \<le> t"
    by linarith+
  then show "t * (c - 1) \<le> x * c" and "x * c \<le> t * (c + 1)"
    by (simp_all add: algebra_simps)
qed

lemma js_div_bounds:
  assumes "TARGET_SAMPLES \<le> l"
  shows "real l * (2 ^ 53 - 1) \<le> 104 * real (js_div l TARGET_SAMPLES)"
    and "104 * real (js_div l TARGET_SAMPLES) \<le> real l * (2 ^ 53 + 1)"
proof -
  define s where "s = js_div l TARGET_SAMPLES"
  have "2 ^ 52 * TARGET_SAMPLES \<le> l * 2 ^ 52"
    using assms by simp
  then have "\<bar>real (round53 (l * 2 ^ 52) TARGET_SAMPLES) - real (l * 2 ^ 52) / real TARGET_SAMPLES\<bar> * 2 ^ 53
      \<le> real (l * 2 ^ 52) / real TARGET_SAMPLES"
    by (intro round53_error) (simp_all add: TARGET_SAMPLES_def)
  then have "\<bar>real s - real l * 2 ^ 52 / 52\<bar> * 2 ^ 53 \<le> real l * 2 ^ 52 / 52"
    by (simp add: s_def js_div_def TARGET_SAMPLES_def)
  then have "real l * 2 ^ 52 / 52 * (2 ^ 53 - 1) \<le> real s * 2 ^ 53"
    and "real s * 2 ^ 53 \<le> real l * 2 ^ 52 / 52 * (2 ^ 53 + 1)"
    by (rule rel_error_bounds, simp)+
  then have "real l * (2 ^ 53 - 1) \<le> 104 * real s \<and> 104 * real s \<le> real l * (2 ^ 53 + 1)"
    by simp
  then show "real l * (2 ^ 53 - 1) \<le> 104 * real (js_div l TARGET_SAMPLES)"
    and "104 * real (js_div l TARGET_SAMPLES) \<le> real l * (2 ^ 53 + 1)"
    by (simp_all add: s_def)
qed

lemma js_mul_zero: "js_mul 0 d = 0"
  by (simp add: js_mul_def round53_def rne_div_def floorlog_def)

lemma js_mul_bounds:
  assumes "2 ^ 52 \<le> d"
  shows "real i * real d * (2 ^ 53 - 1) \<le> real (js_mul i d) * 2 ^ 53"
    and "real (js_mul i d) * 2 ^ 53 \<le> real i * real d * (2 ^ 53 + 1)"
proof -
  have "real i * real d * (2 ^ 53 - 1) \<le> real (js_mul i d) * 2 ^ 53
      \<and> real (js_mul i d) * 2 ^ 53 \<le> real i * real d * (2 ^ 53 + 1)"
  proof (cases "i = 0")
    case True
    then show ?thesis by (simp add: js_mul_zero)
  next
    case False
    then have "2 ^ 52 * 1 \<le> 1 * d" "1 * d \<le> i * d"
      using assms by simp_all
    then have "2 ^ 52 * 1 \<le> i * d"
      by (rule order_trans)
    then have "\<bar>real (round53 (i * d) 1) - real (i * d) / real 1\<bar> * 2 ^ 53 \<le> real (i * d) / real 1"
      by (intro round53_error) simp_all
    then have "\<bar>real (js_mul i d) - real i * real d\<bar> * 2 ^ 53 \<le> real i * real d"
      by (simp add: js_mul_def)
    then have "real i * real d * (2 ^ 53 - 1) \<le> real (js_mul i d) * 2 ^ 53"
      and "real (js_mul i d) * 2 ^ 53 \<le> real i * real d * (2 ^ 53 + 1)"
      by (rule rel_error_bounds, simp)+
    then show ?thesis
      by simp
  qed
  then show "real i * real d * (2 ^ 53 - 1) \<le> real (js_mul i d) * 2 ^ 53"
    and "real (js_mul i d) * 2 ^ 53 \<le> real i * real d * (2 ^ 53 + 1)"
    by simp_all
qed

lemma js_div_ge_one:
  assumes "TARGET_SAMPLES < l"
  shows "2 ^ 52 \<le> js_div l TARGET_SAMPLES"
proof -
  have "real l * (2 ^ 53 - 1) \<le> 104 * real (js_div l TARGET_SAMPLES)"
    using assms by (intro js_div_bounds) simp
  moreover have "53 \<le> real l"
    using assms by (simp add: TARGET_SAMPLES_def)
  ultimately have "(2::real) ^ 52 \<le> real (js_div l TARGET_SAMPLES)"
    by simp
  then have "real ((2::nat) ^ 52) \<le> real (js_div l TARGET_SAMPLES)"
    by simp
  then show ?thesis
    by (simp only: of_nat_le_iff)
qed

text \<open>
  In terms of the real numbers represented: the quotient and the product are within the
  fraction \<open>2\<^sup>-\<^sup>5\<^sup>3\<close> of the exact ones, and \<open>Math_floor\<close> is the floor.
\<close>

lemma Math_floor_dval: "int (Math_floor d) = \<lfloor>dval d\<rfloor>"
proof -
  have "\<lfloor>real d / real (2 ^ 52)\<rfloor> = int (d div 2 ^ 52)"
    by (rule floor_divide_of_nat_eq)
  then show ?thesis
    by (simp add: Math_floor_def dval_def)
qed

lemma scaled_error:
  fixes X T c k :: real
  assumes "\<bar>X - T\<bar> * k \<le> T" and "0 < c"
  shows "\<bar>X / c - T / c\<bar> * k \<le> T / c"
proof -
  have "\<bar>X / c - T / c\<bar> * k = \<bar>X - T\<bar> * k / c"
    using assms(2) by (simp add: diff_divide_distrib [symmetric])
  also have "\<dots> \<le> T / c"
    using assms by (intro divide_right_mono) simp_all
  finally show ?thesis .
qed

lemma js_div_dval:
  assumes "0 < n" and "n \<le> l"
  shows "\<bar>dval (js_div l n) - real l / real n\<bar> * 2 ^ 53 \<le> real l / real n"
proof -
  have "2 ^ 52 * n \<le> l * 2 ^ 52"
    using assms(2) by simp
  with assms(1)
  have "\<bar>real (round53 (l * 2 ^ 52) n) - real (l * 2 ^ 52) / real n\<bar> * 2 ^ 53
      \<le> real (l * 2 ^ 52) / real n"
    by (rule round53_error)
  then have "\<bar>real (round53 (l * 2 ^ 52) n) / 2 ^ 52 - real (l * 2 ^ 52) / real n / 2 ^ 52\<bar> * 2 ^ 53
      \<le> real (l * 2 ^ 52) / real n / 2 ^ 52"
    by (rule scaled_error) simp
  then show ?thesis
    by (simp add: js_div_def dval_def)
qed

lemma js_mul_dval:
  assumes "2 ^ 52 \<le> i * d"
  shows "\<bar>dval (js_mul i d) - real i * dval d\<bar> * 2 ^ 53 \<le> real i * dval d"
proof -
  have "2 ^ 52 * 1 \<le> i * d"
    using assms by simp
  then have "\<bar>real (round53 (i * d) 1) - real (i * d) / real 1\<bar> * 2 ^ 53 \<le> real (i * d) / real 1"
    by (intro round53_error) simp_all
  then have "\<bar>real (round53 (i * d) 1) / 2 ^ 52 - real (i * d) / real 1 / 2 ^ 52\<bar> * 2 ^ 53
      \<le> real (i * d) / real 1 / 2 ^ 52"
    by (rule scaled_error) simp
  then show ?thesis
    by (simp add: js_mul_def dval_def)
qed

section \<open>The index \<^verbatim>\<open>Math.floor(i * step)\<close>\<close>

lemma pick_index_zero: "pick_index l 0 = 0"
  by (simp add: pick_index_def js_mul_zero Math_floor_def)

lemma pick_index_lt:
  assumes l: "TARGET_SAMPLES < l" and i: "i < TARGET_SAMPLES"
  shows "pick_index l i < l"
proof -
  define s where "s = js_div l TARGET_SAMPLES"
  define p where "p = js_mul i s"
  have s1: "2 ^ 52 \<le> s"
    unfolding s_def using l by (rule js_div_ge_one)
  have s2: "104 * real s \<le> real l * (2 ^ 53 + 1)"
    unfolding s_def by (rule js_div_bounds(2)) (use l in simp)
  have p2: "real p * 2 ^ 53 \<le> real i * real s * (2 ^ 53 + 1)"
    unfolding p_def using s1 by (rule js_mul_bounds)
  have "real i \<le> 51"
    using i by (simp add: TARGET_SAMPLES_def)
  then have "real i * real s \<le> 51 * real s"
    by (intro mult_right_mono) simp_all
  moreover have "0 < real l"
    using l by simp
  ultimately have "real p < real l * 2 ^ 52"
    using s2 p2 by simp
  then have "real p < real (l * 2 ^ 52)"
    by simp
  then have "p < l * 2 ^ 52"
    by (simp only: of_nat_less_iff)
  then have "p div 2 ^ 52 < l"
    by (simp add: less_mult_imp_div_less)
  then show ?thesis
    by (simp add: pick_index_def Math_floor_def p_def s_def)
qed

lemma pick_index_strict:
  assumes l: "TARGET_SAMPLES < l" and ij: "i < j" and j: "j < TARGET_SAMPLES"
  shows "pick_index l i < pick_index l j"
proof -
  define s where "s = js_div l TARGET_SAMPLES"
  define p where "p = js_mul i s"
  define q where "q = js_mul j s"
  have s1: "2 ^ 52 \<le> s"
    unfolding s_def using l by (rule js_div_ge_one)
  have s2: "real l * (2 ^ 53 - 1) \<le> 104 * real s"
    unfolding s_def by (rule js_div_bounds(1)) (use l in simp)
  have p2: "real p * 2 ^ 53 \<le> real i * real s * (2 ^ 53 + 1)"
    unfolding p_def using s1 by (rule js_mul_bounds)
  have q2: "real j * real s * (2 ^ 53 - 1) \<le> real q * 2 ^ 53"
    unfolding q_def using s1 by (rule js_mul_bounds)
  have "real i + 1 \<le> real j" "real j \<le> 51"
    using ij j by (simp_all add: TARGET_SAMPLES_def)
  then have "2 ^ 53 - 103 \<le> real j * (2 ^ 53 - 1) - real i * (2 ^ 53 + 1)"
    by simp
  then have "real s * (2 ^ 53 - 103) \<le> real s * (real j * (2 ^ 53 - 1) - real i * (2 ^ 53 + 1))"
    by (intro mult_left_mono) simp_all
  also have "\<dots> = real j * real s * (2 ^ 53 - 1) - real i * real s * (2 ^ 53 + 1)"
    by (simp add: algebra_simps)
  also have "\<dots> \<le> real q * 2 ^ 53 - real p * 2 ^ 53"
    using p2 q2 by linarith
  finally have gap: "real s * (2 ^ 53 - 103) \<le> real q * 2 ^ 53 - real p * 2 ^ 53" .
  have "53 \<le> real l"
    using l by (simp add: TARGET_SAMPLES_def)
  with s2 gap have "real p + 2 ^ 52 \<le> real q"
    by simp
  then have "real (p + 2 ^ 52) \<le> real q"
    by simp
  then have "p + 2 ^ 52 \<le> q"
    by (simp only: of_nat_le_iff)
  then have "(p + 2 ^ 52) div 2 ^ 52 \<le> q div 2 ^ 52"
    by (rule div_le_mono)
  then have "p div 2 ^ 52 < q div 2 ^ 52"
    by simp
  then show ?thesis
    by (simp add: pick_index_def Math_floor_def p_def q_def s_def)
qed

lemma pick_index_exact:
  assumes l: "TARGET_SAMPLES < l" and l32: "l < 2 ^ 32" and i: "i < TARGET_SAMPLES"
  shows "pick_index l i \<le> i * l div TARGET_SAMPLES"
    and "i * l div TARGET_SAMPLES \<le> pick_index l i + 1"
    and "i * l mod TARGET_SAMPLES \<noteq> 0 \<Longrightarrow> pick_index l i = i * l div TARGET_SAMPLES"
proof -
  define s where "s = js_div l TARGET_SAMPLES"
  define p where "p = js_mul i s"
  define k where "k = i * l div 52"
  define r where "r = i * l mod 52"
  define X where "X = real i * real l"
  have s1: "2 ^ 52 \<le> s"
    unfolding s_def using l by (rule js_div_ge_one)
  have s2: "real l * (2 ^ 53 - 1) \<le> 104 * real s"
    unfolding s_def by (rule js_div_bounds(1)) (use l in simp)
  have s3: "104 * real s \<le> real l * (2 ^ 53 + 1)"
    unfolding s_def by (rule js_div_bounds(2)) (use l in simp)
  have p2: "real i * real s * (2 ^ 53 - 1) \<le> real p * 2 ^ 53"
    unfolding p_def using s1 by (rule js_mul_bounds)
  have p3: "real p * 2 ^ 53 \<le> real i * real s * (2 ^ 53 + 1)"
    unfolding p_def using s1 by (rule js_mul_bounds)
  have "real i * (real l * (2 ^ 53 - 1)) \<le> real i * (104 * real s)"
    using s2 by (intro mult_left_mono) simp_all
  then have lo: "X * (2 ^ 53 - 1) \<le> 104 * (real i * real s)"
    by (simp add: X_def algebra_simps)
  have "real i * (104 * real s) \<le> real i * (real l * (2 ^ 53 + 1))"
    using s3 by (intro mult_left_mono) simp_all
  then have hi: "104 * (real i * real s) \<le> X * (2 ^ 53 + 1)"
    by (simp add: X_def algebra_simps)
  have "i * l = 52 * k + r"
    by (simp add: k_def r_def)
  then have "real (i * l) = real (52 * k + r)"
    by simp
  then have X: "X = 52 * real k + real r"
    by (simp add: X_def)
  have r51: "real r \<le> 51"
    by (simp add: r_def)
  have "real i \<le> 51" "real l \<le> 2 ^ 32"
    using i l32 by (simp_all add: TARGET_SAMPLES_def)
  then have "real i * real l \<le> 51 * 2 ^ 32"
    by (intro mult_mono) simp_all
  then have Xs: "X \<le> 51 * 2 ^ 32" "0 \<le> X"
    by (simp_all add: X_def)
  have up: "real p < (real k + 1) * 2 ^ 52"
    using p3 hi X r51 Xs by simp
  have dn: "real k * 2 ^ 52 \<le> real p + 2 ^ 52"
    using p2 lo X r51 Xs by simp
  have ex: "real k * 2 ^ 52 \<le> real p" if "r \<noteq> 0"
  proof -
    from that have "1 \<le> real r" by simp
    with p2 lo X Xs show ?thesis by simp
  qed
  from up have "real p < real ((k + 1) * 2 ^ 52)"
    by simp
  then have "p < (k + 1) * 2 ^ 52"
    by (simp only: of_nat_less_iff)
  then have "p div 2 ^ 52 < k + 1"
    by (simp add: less_mult_imp_div_less)
  then have a: "p div 2 ^ 52 \<le> k"
    by simp
  from dn have "real (k * 2 ^ 52) \<le> real (p + 2 ^ 52)"
    by simp
  then have "k * 2 ^ 52 \<le> p + 2 ^ 52"
    by (simp only: of_nat_le_iff)
  then have "k * 2 ^ 52 div 2 ^ 52 \<le> (p + 2 ^ 52) div 2 ^ 52"
    by (rule div_le_mono)
  then have b: "k \<le> p div 2 ^ 52 + 1"
    by simp
  have c: "k \<le> p div 2 ^ 52" if "r \<noteq> 0"
  proof -
    from ex [OF that] have "real (k * 2 ^ 52) \<le> real p"
      by simp
    then have "k * 2 ^ 52 \<le> p"
      by (simp only: of_nat_le_iff)
    then have "k * 2 ^ 52 div 2 ^ 52 \<le> p div 2 ^ 52"
      by (rule div_le_mono)
    then show ?thesis by simp
  qed
  have pk: "pick_index l i = p div 2 ^ 52"
    by (simp add: pick_index_def Math_floor_def p_def s_def)
  show "pick_index l i \<le> i * l div TARGET_SAMPLES"
    using a by (simp add: pk k_def TARGET_SAMPLES_def)
  show "i * l div TARGET_SAMPLES \<le> pick_index l i + 1"
    using b by (simp add: pk k_def TARGET_SAMPLES_def)
  show "pick_index l i = i * l div TARGET_SAMPLES" if "i * l mod TARGET_SAMPLES \<noteq> 0"
    using a c that by (simp add: pk k_def r_def TARGET_SAMPLES_def)
qed

lemma pick_index_60_13: "pick_index 60 13 = 14"
  by (simp add: pick_index_def Math_floor_def js_mul_def js_div_def round53_def rne_div_def
      TARGET_SAMPLES_def compute_floorlog Let_def)

lemma pick_index_100: "pick_index 100 1 = 1 \<and> pick_index 100 51 = 98"
  by (simp add: pick_index_def Math_floor_def js_mul_def js_div_def round53_def rne_div_def
      TARGET_SAMPLES_def compute_floorlog Let_def)

section \<open>The loops in closed form\<close>

lemma pad_loop_eq: "pad_loop zero xs = xs @ replicate (TARGET_SAMPLES - length xs) zero"
proof (induction zero xs rule: pad_loop.induct)
  case (1 zero accelData)
  show ?case
  proof (cases "length accelData < TARGET_SAMPLES")
    case True
    then have "TARGET_SAMPLES - length accelData = Suc (TARGET_SAMPLES - Suc (length accelData))"
      by simp
    with True 1 show ?thesis
      by (subst pad_loop.simps) (simp add: replicate_app_Cons_same)
  next
    case False
    then show ?thesis by (subst pad_loop.simps) simp
  qed
qed

lemma downsample_loop_eq:
  "downsample_loop undef xs st i acc =
     acc @ map (\<lambda>k. js_index undef xs (Math_floor (js_mul k st))) [i..<TARGET_SAMPLES]"
proof (induction undef xs st i acc rule: downsample_loop.induct)
  case (1 undef accelData step i downsampled)
  show ?case
  proof (cases "i < TARGET_SAMPLES")
    case True
    with 1 show ?thesis
      by (subst downsample_loop.simps) (simp add: upt_conv_Cons)
  next
    case False
    then show ?thesis by (subst downsample_loop.simps) simp
  qed
qed

lemma downsample_eq:
  "downsample undef xs = map (\<lambda>i. js_index undef xs (pick_index (length xs) i)) [0..<TARGET_SAMPLES]"
  by (simp add: downsample_def downsample_loop_eq pick_index_def)

lemma length_pad_loop: "length xs \<le> TARGET_SAMPLES \<Longrightarrow> length (pad_loop zero xs) = TARGET_SAMPLES"
  by (simp add: pad_loop_eq)

lemma length_downsample: "length (downsample undef xs) = TARGET_SAMPLES"
  by (simp add: downsample_eq)

lemma length_slice_neg: "n \<le> length xs \<Longrightarrow> length (slice_neg n xs) = n"
  by (simp add: slice_neg_def)

lemma length_normalize_tail: "length (normalize_tail zero xs) = TARGET_SAMPLES"
  by (simp add: normalize_tail_def length_pad_loop length_slice_neg)

lemma length_normalize_stride: "length (normalize_stride undef zero xs) = TARGET_SAMPLES"
  by (simp add: normalize_stride_def length_pad_loop length_downsample)

lemma normalize_tail_full: "length xs = TARGET_SAMPLES \<Longrightarrow> normalize_tail zero xs = xs"
  by (simp add: normalize_tail_def)

lemma normalize_stride_full: "length xs = TARGET_SAMPLES \<Longrightarrow> normalize_stride undef zero xs = xs"
  by (simp add: normalize_stride_def)

lemma downsample_in_range:
  assumes "TARGET_SAMPLES < length xs"
  shows "downsample undef xs = map (\<lambda>i. xs ! pick_index (length xs) i) [0..<TARGET_SAMPLES]"
  using assms by (simp add: downsample_eq js_index_def pick_index_lt)

lemma length_sequential_readings: "length (sequential_readings n) = n"
  by (simp add: sequential_readings_def)

lemma nth_sequential_readings: "i < n \<Longrightarrow> sequential_readings n ! i = sequential_reading i"
  by (simp add: sequential_readings_def)

lemma subseq_pick_take:
  assumes "\<forall>i<n. f i < length xs" and "\<forall>i j. i < j \<and> j < n \<longrightarrow> f i < f j"
  shows "subseq (map (\<lambda>i. xs ! f i) [0..<n]) (take (if n = 0 then 0 else Suc (f (n - 1))) xs)"
  using assms
proof (induction n)
  case 0
  then show ?case by simp
next
  case (Suc n)
  have fn: "f n < length xs"
    using Suc.prems(1) by simp
  have last: "take (Suc (f n)) xs = take (f n) xs @ [xs ! f n]"
    using fn by (rule take_Suc_conv_app_nth)
  have "subseq (map (\<lambda>i. xs ! f i) [0..<n]) (take (f n) xs)"
  proof (cases "n = 0")
    case True
    then show ?thesis by simp
  next
    case False
    then have "f (n - 1) < f n"
      using Suc.prems(2) by simp
    then have le: "Suc (f (n - 1)) \<le> f n"
      by simp
    have "subseq (map (\<lambda>i. xs ! f i) [0..<n]) (take (Suc (f (n - 1))) xs)"
      using Suc.IH Suc.prems False by simp
    moreover have "take (f n) xs = take (Suc (f (n - 1))) xs @ drop (Suc (f (n - 1))) (take (f n) xs)"
      using le by (metis append_take_drop_id min.absorb1 take_take)
    ultimately show ?thesis
      by (metis subseq_rev_drop_many)
  qed
  then have "subseq (map (\<lambda>i. xs ! f i) [0..<n] @ [xs ! f n]) (take (f n) xs @ [xs ! f n])"
    by (intro list_emb_append_mono) simp_all
  then show ?case
    by (simp add: last)
qed

lemma subseq_pick:
  assumes "\<forall>i<n. f i < length xs" and "\<forall>i j. i < j \<and> j < n \<longrightarrow> f i < f j"
  shows "subseq (map (\<lambda>i. xs ! f i) [0..<n]) xs"
proof -
  define k where "k = (if n = 0 then 0 else Suc (f (n - 1)))"
  have "subseq (map (\<lambda>i. xs ! f i) [0..<n]) (take k xs)"
    unfolding k_def using assms by (rule subseq_pick_take)
  then have "subseq (map (\<lambda>i. xs ! f i) [0..<n]) (take k xs @ drop k xs)"
    by (rule subseq_rev_drop_many)
  then show ?thesis by simp
qed

section \<open>Claims about the normalised window\<close>

text \<open>
  C1. Whatever the length of the collected buffer, the normalisation run when the timer
  fires leaves exactly \<open>TARGET_SAMPLES = 52\<close> entries: in the variant that keeps the last
  52 (first main.js, part_000, part_001) and in the variant that downsamples at a uniform
  stride (second main.js).
\<close>

theorem normalized_length:
  "length (normalize_tail zero xs) = 52 \<and> length (normalize_stride undef zero xs) = 52"
  by (simp add: length_normalize_tail length_normalize_stride TARGET_SAMPLES_def)

text \<open>
  C9. Normalising twice is the same as normalising once, in both variants: the first pass
  leaves 52 entries, so the second takes neither the padding nor the oversupply branch.
\<close>

theorem normalize_idempotent:
  "normalize_tail zero (normalize_tail zero xs) = normalize_tail zero xs \<and>
   normalize_stride undef zero (normalize_stride undef zero xs) = normalize_stride undef zero xs"
proof
  have "length (normalize_tail zero xs) = TARGET_SAMPLES"
    by (rule length_normalize_tail)
  then show "normalize_tail zero (normalize_tail zero xs) = normalize_tail zero xs"
    by (rule normalize_tail_full)
  have "length (normalize_stride undef zero xs) = TARGET_SAMPLES"
    by (rule length_normalize_stride)
  then show "normalize_stride undef zero (normalize_stride undef zero xs) = normalize_stride undef zero xs"
    by (rule normalize_stride_full)
qed

text \<open>
  C7. A buffer shorter than 52 entries is padded at the tail: the result starts with the
  buffer, in order, and every further entry is the zero reading; both variants pad alike.
  The witness is the scenario of 40 zero readings: 52 entries, the last 12 of them zero.
\<close>

theorem pad_policy:
  assumes "length xs < TARGET_SAMPLES"
  shows "take (length xs) (normalize_tail zero xs) = xs \<and>
         drop (length xs) (normalize_tail zero xs) = replicate (TARGET_SAMPLES - length xs) zero \<and>
         length (normalize_tail zero xs) = TARGET_SAMPLES \<and>
         normalize_stride undef zero xs = normalize_tail zero xs"
  using assms by (simp add: normalize_tail_def normalize_stride_def pad_loop_eq)

theorem pad_policy_witness:
  "length (replicate 40 zero_reading) < TARGET_SAMPLES \<and>
   take 40 (normalize_tail zero_reading (replicate 40 zero_reading)) = replicate 40 zero_reading \<and>
   drop 40 (normalize_tail zero_reading (replicate 40 zero_reading)) = replicate 12 zero_reading \<and>
   length (normalize_tail zero_reading (replicate 40 zero_reading)) = 52"
proof -
  have h: "length (replicate 40 zero_reading) < TARGET_SAMPLES"
    by (simp add: TARGET_SAMPLES_def)
  show ?thesis
    using h pad_policy [OF h, where zero = zero_reading and undef = zero_reading]
    by (simp add: TARGET_SAMPLES_def)
qed

text \<open>
  C2, amended. With more than 52 entries the stride variant puts at position \<open>i\<close> the
  entry at index \<^verbatim>\<open>Math.floor(i * step)\<close>, computed on binary64 numbers; position 0
  holds entry 0. For a length below \<open>2\<^sup>3\<^sup>2\<close> that index is the exact
  \<open>\<lfloor>i * L / 52\<rfloor>\<close> or one less, and it is the exact one whenever 52 does not divide
  \<open>i * L\<close>. The witness is the scenario of 100 sequential readings: position 1 holds
  entry 1 and position 51 holds entry 98.
\<close>

theorem stride_policy:
  assumes "TARGET_SAMPLES < length xs" and "i < TARGET_SAMPLES"
  shows "normalize_stride undef zero xs ! i = xs ! pick_index (length xs) i \<and>
         normalize_stride undef zero xs ! 0 = xs ! 0 \<and>
         (length xs < 2 ^ 32 \<longrightarrow>
            pick_index (length xs) i \<le> i * length xs div TARGET_SAMPLES \<and>
            i * length xs div TARGET_SAMPLES \<le> pick_index (length xs) i + 1 \<and>
            (i * length xs mod TARGET_SAMPLES \<noteq> 0 \<longrightarrow>
               pick_index (length xs) i = i * length xs div TARGET_SAMPLES))"
proof -
  have n: "normalize_stride undef zero xs = map (\<lambda>i. xs ! pick_index (length xs) i) [0..<TARGET_SAMPLES]"
    using assms(1) by (simp add: normalize_stride_def downsample_in_range)
  have "normalize_stride undef zero xs ! i = xs ! pick_index (length xs) i"
    using assms(2) by (simp add: n)
  moreover have "normalize_stride undef zero xs ! 0 = xs ! 0"
    using assms(2) by (simp add: n pick_index_zero)
  ultimately show ?thesis
    using pick_index_exact [OF assms(1) _ assms(2)] by blast
qed

theorem stride_policy_witness:
  "TARGET_SAMPLES < length (sequential_readings 100) \<and> 51 < TARGET_SAMPLES \<and>
   length (sequential_readings 100) < 2 ^ 32 \<and> 51 * length (sequential_readings 100) mod TARGET_SAMPLES \<noteq> 0 \<and>
   normalize_stride None (Some zero_reading) (sequential_readings 100) ! 51 = sequential_readings 100 ! 98 \<and>
   normalize_stride None (Some zero_reading) (sequential_readings 100) ! 0 = sequential_reading 0 \<and>
   pick_index 100 51 = 51 * 100 div 52 \<and>
   normalize_stride None (Some zero_reading) (sequential_readings 100) ! 1 = sequential_readings 100 ! 1"
proof -
  have h: "TARGET_SAMPLES < length (sequential_readings 100)" "51 < TARGET_SAMPLES" "1 < TARGET_SAMPLES"
    by (simp_all add: TARGET_SAMPLES_def length_sequential_readings)
  show ?thesis
    using h stride_policy [OF h(1) h(2), of None "Some zero_reading"]
      stride_policy [OF h(1) h(3), of None "Some zero_reading"]
    by (simp add: length_sequential_readings nth_sequential_readings pick_index_100 TARGET_SAMPLES_def)
qed

text \<open>
  As stated, with the exact \<open>\<lfloor>i * L / 52\<rfloor>\<close>, C2 fails: for 60 sequential readings
  \<open>13 * 60 / 52\<close> is exactly 15, but the rounded step times 13 is just below 15 and
  position 13 holds entry 14.
\<close>

theorem stride_exact_floor_counterexample:
  "normalize_stride None (Some zero_reading) (sequential_readings 60) ! 13 = sequential_reading 14 \<and>
   sequential_readings 60 ! (13 * 60 div 52) = sequential_reading 15 \<and>
   sequential_reading 14 \<noteq> sequential_reading 15"
  by (simp add: normalize_stride_def length_sequential_readings nth_sequential_readings
      downsample_eq js_index_def pick_index_60_13 TARGET_SAMPLES_def)

text \<open>
  C10. In the downsampling branch (more than 52 entries) every index
  \<^verbatim>\<open>Math.floor(i * step)\<close> for \<open>i < 52\<close> lies inside the buffer, so no entry of the
  result is \<^verbatim>\<open>undefined\<close>; the indices increase strictly with \<open>i\<close>, and the result is
  a subsequence of the buffer, in order.
\<close>

theorem downsample_indices_safe:
  assumes "TARGET_SAMPLES < length xs"
  shows "(\<forall>i<TARGET_SAMPLES. pick_index (length xs) i < length xs) \<and>
         (\<forall>i j. i < j \<and> j < TARGET_SAMPLES \<longrightarrow> pick_index (length xs) i < pick_index (length xs) j) \<and>
         downsample undef xs = map (\<lambda>i. xs ! pick_index (length xs) i) [0..<TARGET_SAMPLES] \<and>
         subseq (downsample undef xs) xs"
proof -
  have a: "\<forall>i<TARGET_SAMPLES. pick_index (length xs) i < length xs"
    using assms by (simp add: pick_index_lt)
  have b: "\<forall>i j. i < j \<and> j < TARGET_SAMPLES \<longrightarrow> pick_index (length xs) i < pick_index (length xs) j"
    using assms by (simp add: pick_index_strict)
  have c: "downsample undef xs = map (\<lambda>i. xs ! pick_index (length xs) i) [0..<TARGET_SAMPLES]"
    using assms by (rule downsample_in_range)
  have "subseq (map (\<lambda>i. xs ! pick_index (length xs) i) [0..<TARGET_SAMPLES]) xs"
    using a b by (rule subseq_pick)
  with a b c show ?thesis
    by simp
qed

theorem downsample_indices_safe_witness:
  "TARGET_SAMPLES < length (sequential_readings 60) \<and>
   pick_index (length (sequential_readings 60)) 51 < length (sequential_readings 60) \<and>
   pick_index (length (sequential_readings 60)) 13 < pick_index (length (sequential_readings 60)) 14 \<and>
   subseq (downsample None (sequential_readings 60)) (sequential_readings 60)"
proof -
  have h: "TARGET_SAMPLES < length (sequential_readings 60)"
    by (simp add: TARGET_SAMPLES_def length_sequential_readings)
  have "(51::nat) < TARGET_SAMPLES" "(13::nat) < 14 \<and> (14::nat) < TARGET_SAMPLES"
    by (simp_all add: TARGET_SAMPLES_def)
  with h downsample_indices_safe [OF h, of None] show ?thesis
    by blast
qed

section \<open>The collection cycle of main.js\<close>

lemma listeners_handleMotionEvent [simp]: "listeners (handleMotionEvent ev s) = listeners s"
  by (simp add: handleMotionEvent_def Let_def split: prod.splits)

lemma motion_detached: "listeners s = [] \<Longrightarrow> react (Motion ev) s = s"
  by simp

lemma motion_attached: "listeners s = [motionListener] \<Longrightarrow> react (Motion ev) s = handleMotionEvent ev s"
  by (simp add: motionListener_def)

lemma listeners_startCollectingData:
  "at_most_once s \<Longrightarrow> continueLoop s \<Longrightarrow> listeners (startCollectingData s) = [motionListener]"
  by (auto simp: at_most_once_def startCollectingData_def addEventListener_def)

lemma at_most_once_react: "at_most_once s \<Longrightarrow> at_most_once (react e s)"
proof (cases e)
  case (Motion ev)
  assume "at_most_once s"
  then show ?thesis
    unfolding Motion at_most_once_def
    by (auto simp: motionListener_def)
qed (auto simp: at_most_once_def loadModel_def startContinuousLoop_def startCollectingData_def
      stopContinuousLoop_def stopCollectingData_def stopCollectingData_resume_def next_cycle_def
      runInference_settled_def addEventListener_def removeEventListener_def Let_def
      split: predict_outcome.splits)

lemma at_most_once_run: "at_most_once s \<Longrightarrow> at_most_once (run evs s)"
  unfolding run_def by (induction evs arbitrary: s) (simp_all add: at_most_once_react)

lemma at_most_once_page_load: "at_most_once page_load"
  by (simp add: at_most_once_def page_load_def)

lemmas cycle_defs = loadModel_def startContinuousLoop_def startCollectingData_def
  stopContinuousLoop_def stopCollectingData_def stopCollectingData_resume_def next_cycle_def
  runInference_settled_def addEventListener_def removeEventListener_def

lemma halted_react:
  assumes "\<not> continueLoop s" and "listeners s = []" and "e \<noteq> Start"
  shows "\<not> continueLoop (react e s) \<and> listeners (react e s) = [] \<and> timers (react e s) \<le> timers s"
  using assms by (cases e) (auto simp: cycle_defs Let_def split: predict_outcome.splits)

lemma halted_run:
  assumes "\<not> continueLoop s" and "listeners s = []" and "Start \<notin> set evs"
  shows "\<not> continueLoop (run evs s) \<and> listeners (run evs s) = [] \<and> timers (run evs s) \<le> timers s"
  using assms
proof (induction evs arbitrary: s)
  case Nil
  then show ?case by (simp add: run_def)
next
  case (Cons e evs)
  from Cons.prems have e: "e \<noteq> Start" and evs: "Start \<notin> set evs"
    by auto
  note h = halted_react [OF Cons.prems(1) Cons.prems(2) e]
  from h have "\<not> continueLoop (run evs (react e s)) \<and> listeners (run evs (react e s)) = []
      \<and> timers (run evs (react e s)) \<le> timers (react e s)"
    using evs by (intro Cons.IH) simp_all
  with h show ?case
    by (simp add: run_def)
qed

lemma stop_detaches:
  assumes "at_most_once s"
  shows "\<not> continueLoop (stopContinuousLoop s)" and "listeners (stopContinuousLoop s) = []"
    and "timers (stopContinuousLoop s) = timers s" and "awaiting (stopContinuousLoop s) = awaiting s"
    and "accelData (stopContinuousLoop s) = accelData s"
  using assms by (auto simp: at_most_once_def stopContinuousLoop_def removeEventListener_def)

lemma failed_inference_rearms:
  assumes "at_most_once s" and "0 < awaiting s" and "continueLoop s"
  shows "listeners (react (InferenceSettled (PredictThrows err)) s) = [motionListener] \<and>
         accelData (react (InferenceSettled (PredictThrows err)) s) = [] \<and>
         timers (react (InferenceSettled (PredictThrows err)) s) = timers s + 1 \<and>
         status (react (InferenceSettled (PredictThrows err)) s) = ErrorStatus err \<and>
         uncaught (react (InferenceSettled (PredictThrows err)) s) = uncaught s"
  using assms by (auto simp: at_most_once_def cycle_defs)

lemma missing_model_rearms:
  assumes "at_most_once s" and "0 < timers s" and "continueLoop s" and "\<not> model_loaded s"
  shows "listeners (react TimerFire s) = [motionListener] \<and>
         accelData (react TimerFire s) = [] \<and>
         timers (react TimerFire s) = timers s \<and>
         status (react TimerFire s) = ModelNotLoaded \<and>
         uncaught (react TimerFire s) = uncaught s"
  using assms by (auto simp: at_most_once_def cycle_defs Let_def)

lemma uncaught_react: "uncaught (react e s) = uncaught s"
proof (cases e)
  case (Motion ev)
  have one: "uncaught (invoke ev l s) = uncaught s" for l s
    by (cases "(ev, l, s)" rule: invoke.cases)
      (simp add: handleMotionEvent_def Let_def split: prod.splits)
  have "uncaught (fold (invoke ev) ls s) = uncaught s" for ls
    by (induction ls arbitrary: s) (simp_all add: one)
  then show ?thesis
    by (simp add: Motion)
qed (auto simp: cycle_defs Let_def split: predict_outcome.splits)

lemma or_zero_num: "or_zero (JNum r) = JNum r"
  by (simp add: or_zero_def)

lemma absent_axes_default_to_zero:
  "\<exists>a b c. accelData (handleMotionEvent ev s) = accelData s @ [Reading (JNum a) (JNum b) (JNum c)]"
  by (auto simp: handleMotionEvent_def or_zero_def Let_def split: prod.splits option.splits jsval.splits)

lemma timer_fire_window:
  assumes "0 < timers s" and "model_loaded s"
  shows "length (accelData (react TimerFire s)) = TARGET_SAMPLES"
    and "awaiting (react TimerFire s) = awaiting s + 1"
  using assms by (simp_all add: stopCollectingData_def Let_def length_normalize_tail)

lemmas part000_defs = loadModel_part000_def startLoop_part000_def startCollectingData_part000_def
  stopLoop_part000_def stopCollectingData_part000_def then_callback_part000_def
  runInference_settled_part000_def handleMotionEvent_part000_def
  addEventListener_def removeEventListener_def

lemma length_timed_samples: "length (timed_samples n) = n"
  by (simp add: timed_samples_def)

lemma nth_timed_samples: "i < n \<Longrightarrow> timed_samples n ! i = timed_sample i"
  by (simp add: timed_samples_def)

lemma toFixed_examples:
  "toFixed (JNum (980665 / 100000)) = Inr (FixedText False 9807) \<and>
   toFixed (JNum (- 1 / 10000)) = Inr (FixedText True 0) \<and>
   toFixed JNaN = Inr NaNText \<and>
   toFixed JNull = Inl TypeError"
  by (simp add: toFixed_def)

lemma part002_status_throws:
  "snd (handleMotionEvent_part002 now (MotionEvent (Some (JNull, y, z))) buf) = Inl TypeError"
  by (simp add: handleMotionEvent_part002_def toFixed_def Let_def)

lemma part002_buffer:
  "fst (handleMotionEvent_part002 now (MotionEvent (Some (x, y, z))) buf) =
     (if length buf < MAX_SAMPLES then buf @ [TimedReading x y z now]
      else tl buf @ [TimedReading x y z now])"
proof (cases "length buf < MAX_SAMPLES")
  case True
  then show ?thesis
    by (simp add: handleMotionEvent_part002_def Let_def)
next
  case False
  then have "buf \<noteq> []"
    by (auto simp: MAX_SAMPLES_def SAMPLE_RATE_def BUFFER_LENGTH_SEC_def)
  with False show ?thesis
    by (simp add: handleMotionEvent_part002_def Let_def)
qed

section \<open>Claims about the cycle\<close>

text \<open>
  C3. In main.js a throwing prediction is caught, reported in the status and followed by
  the next window (\<open>failed_inference_rearms\<close>, \<open>missing_model_rearms\<close>,
  \<open>uncaught_react\<close>). part_000 has no \<^verbatim>\<open>try\<close> around the prediction: with the
  model loaded and the loop active, a prediction that throws leaves the page with no
  listener and no timer, and the error is an unhandled rejection.
\<close>

theorem part000_failed_inference_stalls:
  "continueLoop (run_part000 [LoadModel True, Start, TimerFire,
      InferenceSettled (PredictThrows (PredictError ''predict failed''))] page_load) \<and>
   listeners (run_part000 [LoadModel True, Start, TimerFire,
      InferenceSettled (PredictThrows (PredictError ''predict failed''))] page_load) = [] \<and>
   timers (run_part000 [LoadModel True, Start, TimerFire,
      InferenceSettled (PredictThrows (PredictError ''predict failed''))] page_load) = 0 \<and>
   uncaught (run_part000 [LoadModel True, Start, TimerFire,
      InferenceSettled (PredictThrows (PredictError ''predict failed''))] page_load)
     = [PredictError ''predict failed'']"
  by (simp add: run_part000_def page_load_def part000_defs Let_def)

text \<open>
  C4. The handler of main.js stores a number for every axis
  (\<open>absent_axes_default_to_zero\<close>). The handler of part_000 stores the axis values as
  delivered: an event whose \<open>x\<close> is \<^verbatim>\<open>null\<close> puts \<^verbatim>\<open>null\<close> into the buffer.
\<close>

theorem part000_stores_absent_axis:
  "accelData (react_part000 (Motion x_missing) (run_part000 [LoadModel True, Start] page_load))
     = [Reading JNull (JNum 2) (JNum 3)]"
  by (simp add: run_part000_def page_load_def part000_defs Let_def x_missing_def motionListener_def)




text \<open>
  C6, amended. The handler of main.js adds the delivered reading at the end for every
  event, with no limit: the three axis values of the event, each replaced by 0 when it is
  absent, so a reading of three numbers is stored as it came and an event without
  acceleration adds the zero reading. The length grows by exactly one and the earlier
  entries stay as they are. The handler of part_002 adds the delivered reading with its
  time stamp at the end; the earlier entries all stay only while the buffer holds fewer
  than \<open>MAX_SAMPLES = 100\<close> entries, and from then on each append also drops the oldest
  entry.
\<close>

theorem buffer_append:
  "accelData (handleMotionEvent (MotionEvent (Some (x, y, z))) s)
     = accelData s @ [Reading (or_zero x) (or_zero y) (or_zero z)] \<and>
   accelData (handleMotionEvent (MotionEvent (Some (JNum a, JNum b, JNum c))) s)
     = accelData s @ [Reading (JNum a) (JNum b) (JNum c)] \<and>
   accelData (handleMotionEvent (MotionEvent None) s) = accelData s @ [zero_reading] \<and>
   length (accelData (handleMotionEvent ev s)) = length (accelData s) + 1 \<and>
   take (length (accelData s)) (accelData (handleMotionEvent ev s)) = accelData s \<and>
   fst (handleMotionEvent_part002 now (MotionEvent (Some (x, y, z))) buf) =
     (if length buf < MAX_SAMPLES then buf @ [TimedReading x y z now]
      else tl buf @ [TimedReading x y z now])"
proof -
  have some: "accelData (handleMotionEvent (MotionEvent (Some (x, y, z))) s)
      = accelData s @ [Reading (or_zero x) (or_zero y) (or_zero z)]" for x y z
    by (simp add: handleMotionEvent_def)
  have num: "accelData (handleMotionEvent (MotionEvent (Some (JNum a, JNum b, JNum c))) s)
      = accelData s @ [Reading (JNum a) (JNum b) (JNum c)]"
    by (simp add: some or_zero_num)
  have none: "accelData (handleMotionEvent (MotionEvent None) s) = accelData s @ [zero_reading]"
    by (simp add: handleMotionEvent_def or_zero_def zero_reading_def)
  obtain p q r where "accelData (handleMotionEvent ev s) = accelData s @ [Reading (JNum p) (JNum q) (JNum r)]"
    using absent_axes_default_to_zero [of ev s] by blast
  then have len: "length (accelData (handleMotionEvent ev s)) = length (accelData s) + 1"
    and pre: "take (length (accelData s)) (accelData (handleMotionEvent ev s)) = accelData s"
    by simp_all
  show ?thesis
    using some num none len pre part002_buffer by (intro conjI)
qed

text \<open>
  As stated C6 fails on part_002: with 100 entries in the buffer, one more event leaves
  100 entries, and the entry that was first is gone.
\<close>

theorem sliding_buffer_counterexample:
  "length (timed_samples 100) = 100 \<and>
   length (fst (handleMotionEvent_part002 100 one_two_three (timed_samples 100))) = 100 \<and>
   timed_samples 100 ! 0 = timed_sample 0 \<and>
   fst (handleMotionEvent_part002 100 one_two_three (timed_samples 100)) ! 0 = timed_sample 1"
proof -
  have "fst (handleMotionEvent_part002 100 one_two_three (timed_samples 100))
      = tl (timed_samples 100) @ [TimedReading (JNum 1) (JNum 2) (JNum 3) 100]"
    by (simp add: one_two_three_def part002_buffer length_timed_samples MAX_SAMPLES_def
        SAMPLE_RATE_def BUFFER_LENGTH_SEC_def)
  moreover have "tl (timed_samples 100) ! 0 = timed_samples 100 ! Suc 0"
    by (rule nth_tl) (simp add: length_timed_samples)
  ultimately show ?thesis
    by (simp add: length_timed_samples nth_timed_samples nth_append del: timed_sample.simps)
qed

text \<open>
  C8. After \<^verbatim>\<open>stopContinuousLoop\<close>, in any reachable state and whatever follows
  except a new start: \<^verbatim>\<open>continueLoop\<close> stays false and no listener is attached, so a
  motion event leaves the buffer as it is; no timer is added; the stop itself leaves the
  buffer and the suspended inference calls alone, and an inference that settles
  afterwards completes without attaching a listener or scheduling a timer.
\<close>

theorem stop_halts_collection:
  assumes "Start \<notin> set evs"
  shows "let s = run evs0 page_load; t = run evs (react Stop s)
         in \<not> continueLoop t \<and> listeners t = [] \<and>
            accelData (react (Motion ev) t) = accelData t \<and>
            timers t \<le> timers s \<and>
            awaiting (react Stop s) = awaiting s \<and>
            accelData (react Stop s) = accelData s \<and>
            listeners (react (InferenceSettled outcome) t) = [] \<and>
            timers (react (InferenceSettled outcome) t) = timers t \<and>
            awaiting (react (InferenceSettled outcome) t) = awaiting t - 1"
proof -
  let ?s = "run evs0 page_load"
  let ?t = "run evs (react Stop ?s)"
  have inv: "at_most_once ?s"
    using at_most_once_page_load by (rule at_most_once_run)
  note stop = stop_detaches [OF inv]
  have "\<not> continueLoop (run evs (stopContinuousLoop ?s)) \<and>
      listeners (run evs (stopContinuousLoop ?s)) = [] \<and>
      timers (run evs (stopContinuousLoop ?s)) \<le> timers (stopContinuousLoop ?s)"
    using stop(1) stop(2) assms by (rule halted_run)
  then have t: "\<not> continueLoop ?t" "listeners ?t = []" "timers ?t \<le> timers ?s"
    using stop(3) by simp_all
  have m: "accelData (react (Motion ev) ?t) = accelData ?t"
    using t(2) by (simp only: motion_detached)
  have a: "awaiting (react Stop ?s) = awaiting ?s" "accelData (react Stop ?s) = accelData ?s"
    using stop by simp_all
  have i: "listeners (react (InferenceSettled outcome) ?t) = []"
    "timers (react (InferenceSettled outcome) ?t) = timers ?t"
    "awaiting (react (InferenceSettled outcome) ?t) = awaiting ?t - 1"
    using t(1) t(2) by (auto simp: cycle_defs split: predict_outcome.splits)
  show ?thesis
    unfolding Let_def using t m a i by (intro conjI)
qed

theorem stop_halts_collection_witness:
  "Start \<notin> set [Motion one_two_three, TimerFire, InferenceSettled (Predicted [1])] \<and>
   listeners (run [Motion one_two_three, TimerFire, InferenceSettled (Predicted [1])]
     (react Stop (run [LoadModel True, Start, Motion one_two_three] page_load))) = [] \<and>
   \<not> continueLoop (run [Motion one_two_three, TimerFire, InferenceSettled (Predicted [1])]
     (react Stop (run [LoadModel True, Start, Motion one_two_three] page_load)))"
proof -
  have h: "Start \<notin> set [Motion one_two_three, TimerFire, InferenceSettled (Predicted [1])]"
    by simp
  show ?thesis
    using h stop_halts_collection [OF h, of "[LoadModel True, Start, Motion one_two_three]"]
    by (simp add: Let_def)
qed

end
